theory Spec2Isabelle
  imports Main
begin

section \<open>Text and the regular expressions of the script\<close>

text \<open>
  The script \<^verbatim>\<open>scripts/fix-all-logger-signatures.py\<close> reads a file as one Python
  string, applies \<^verbatim>\<open>re.sub(pattern, replacement, content)\<close> and writes the result
  back. A text is a list of characters; a character of this model is a code point below
  256. Python's \<^verbatim>\<open>\s\<close> on a string matches the characters for which
  \<^verbatim>\<open>str.isspace\<close> holds; below 256 these are the twelve code points of
  \<open>is_space\<close>.
\<close>

definition is_space :: "char \<Rightarrow> bool" where
  "is_space c = (c \<in> set [CHR 0x09, CHR 0x0A, CHR 0x0B, CHR 0x0C, CHR 0x0D, CHR 0x1C, CHR 0x1D,
     CHR 0x1E, CHR 0x1F, CHR 0x20, CHR 0x85, CHR 0xA0])"

text \<open>
  The pattern uses two character classes: \<^verbatim>\<open>\s\<close> and a negated single character
  (\<^verbatim>\<open>[^,]\<close>, \<^verbatim>\<open>[^}]\<close>).
\<close>

datatype cls = Space | Not_char char

fun in_cls :: "cls \<Rightarrow> char \<Rightarrow> bool" where
  "in_cls Space c = is_space c"
| "in_cls (Not_char x) c = (c \<noteq> x)"

text \<open>
  The constructs of the pattern: literal text (an escaped character stands for itself),
  an alternation of literals, and the greedy repetitions \<^verbatim>\<open>*\<close> and \<^verbatim>\<open>+\<close>
  of a character class. An item of a pattern is such a construct, either plain or inside
  a capturing group \<^verbatim>\<open>( )\<close>; a pattern is the sequence of its items.
\<close>

datatype atom = Lit string | Alt "string list" | Star cls | Plus cls

datatype item = Plain atom | Group atom

text \<open>
  A backtracking engine tries the ways an item can match at the start of the remaining
  text in a fixed order and takes the first one with which the rest of the pattern
  matches: an alternation from left to right, a greedy repetition from the longest run
  down to the shortest.
\<close>

fun greedy :: "cls \<Rightarrow> string \<Rightarrow> string list" where
  "greedy k [] = [[]]"
| "greedy k (c # cs) = (if in_cls k c then map ((#) c) (greedy k cs) @ [[]] else [[]])"

definition starts_with :: "string \<Rightarrow> string \<Rightarrow> bool" where
  "starts_with l s = (take (length l) s = l)"

fun candidates :: "atom \<Rightarrow> string \<Rightarrow> string list" where
  "candidates (Lit l) s = (if starts_with l s then [l] else [])"
| "candidates (Alt ls) s = filter (\<lambda>l. starts_with l s) ls"
| "candidates (Star k) s = greedy k s"
| "candidates (Plus k) s = filter (\<lambda>w. w \<noteq> []) (greedy k s)"

fun first_some :: "('a \<Rightarrow> 'b option) \<Rightarrow> 'a list \<Rightarrow> 'b option" where
  "first_some f [] = None"
| "first_some f (x # xs) = (case f x of Some y \<Rightarrow> Some y | None \<Rightarrow> first_some f xs)"

text \<open>
  \<open>match_items p s\<close> is \<^verbatim>\<open>re.match\<close> at the start of \<open>s\<close>: the captured groups
  in order and the text after the match, or \<open>None\<close>.
\<close>

fun match_items :: "item list \<Rightarrow> string \<Rightarrow> (string list \<times> string) option" where
  "match_items [] s = Some ([], s)"
| "match_items (Plain a # its) s =
     first_some (\<lambda>w. match_items its (drop (length w) s)) (candidates a s)"
| "match_items (Group a # its) s =
     first_some (\<lambda>w. map_option (\<lambda>(gs, r). (w # gs, r)) (match_items its (drop (length w) s)))
       (candidates a s)"

text \<open>
  A replacement template is literal text with group references \<^verbatim>\<open>\1\<close>,
  \<^verbatim>\<open>\2\<close>, ... Python compiles the template before it searches and raises
  \<^verbatim>\<open>re.error\<close> (invalid group reference) when a reference names a group the
  pattern does not have.
\<close>

datatype tmpl = Txt string | Ref nat

fun n_groups :: "item list \<Rightarrow> nat" where
  "n_groups [] = 0"
| "n_groups (Plain a # its) = n_groups its"
| "n_groups (Group a # its) = Suc (n_groups its)"

fun ref_ok :: "nat \<Rightarrow> tmpl \<Rightarrow> bool" where
  "ref_ok n (Txt t) = True"
| "ref_ok n (Ref i) = (1 \<le> i \<and> i \<le> n)"

fun expand :: "tmpl list \<Rightarrow> string list \<Rightarrow> string" where
  "expand [] gs = []"
| "expand (Txt t # ts) gs = t @ expand ts gs"
| "expand (Ref i # ts) gs = gs ! (i - 1) @ expand ts gs"

text \<open>
  The scan of \<^verbatim>\<open>re.sub\<close>: at each position, from left to right, a match is
  replaced by the expanded template and the scan goes on after it; where there is no match
  the character is copied. (After an empty match the next character is copied; the
  script's pattern has no empty match.)
\<close>

function sub_loop :: "item list \<Rightarrow> tmpl list \<Rightarrow> string \<Rightarrow> string" where
  "sub_loop p t s =
     (case match_items p s of
        None \<Rightarrow> (case s of [] \<Rightarrow> [] | c # cs \<Rightarrow> c # sub_loop p t cs)
      | Some (gs, r) \<Rightarrow>
          if length r < length s then expand t gs @ sub_loop p t r
          else expand t gs @ (case s of [] \<Rightarrow> [] | c # cs \<Rightarrow> c # sub_loop p t cs))"
  by pat_completeness auto
termination
  by (relation "measure (\<lambda>(p, t, s). length s)") auto

declare sub_loop.simps [simp del]

datatype py_error =
  Re_error | FileNotFoundError | IsADirectoryError | PermissionError | UnicodeDecodeError |
  UnicodeEncodeError

definition re_sub :: "item list \<Rightarrow> tmpl list \<Rightarrow> string \<Rightarrow> py_error + string" where
  "re_sub p t s = (if list_all (ref_ok (n_groups p)) t then Inr (sub_loop p t s) else Inl Re_error)"

section \<open>The script\<close>

text \<open>
  \<^verbatim>\<open>pattern = r'logger\.(warn|info)\(([^,]+),\s*error,\s*\{\s*component:\s*([^}]+)\s*\}\)'\<close>
  and \<^verbatim>\<open>replacement = r'logger.\1(\2, { component: \3, error })'\<close>. The script
  also assigns \<^verbatim>\<open>pattern1\<close>, \<^verbatim>\<open>replacement1\<close>, \<^verbatim>\<open>pattern2\<close> and
  \<^verbatim>\<open>replacement2\<close> and never uses them. The template refers to the groups 1 to 3,
  which the pattern has, so \<open>re_sub\<close> raises no error and \<open>expand\<close> reads no group out
  of range.
\<close>

definition pattern :: "item list" where
  "pattern =
     [Plain (Lit ''logger.''), Group (Alt [''warn'', ''info'']), Plain (Lit ''(''),
      Group (Plus (Not_char CHR '','')), Plain (Lit '',''), Plain (Star Space),
      Plain (Lit ''error,''), Plain (Star Space), Plain (Lit ''{''), Plain (Star Space),
      Plain (Lit ''component:''), Plain (Star Space), Group (Plus (Not_char CHR ''}'')),
      Plain (Star Space), Plain (Lit ''})'')]"

definition replacement :: "tmpl list" where
  "replacement =
     [Txt ''logger.'', Ref 1, Txt ''('', Ref 2, Txt '', { component: '', Ref 3,
      Txt '', error })'']"

definition content_fixed :: "string \<Rightarrow> py_error + string" where
  "content_fixed content = re_sub pattern replacement content"

section \<open>What the pattern matches\<close>

text \<open>
  The words an item matches, and the words a pattern matches together with the text of its
  groups: the meaning of the regular expression, with no order of search in it.
\<close>

fun atom_lang :: "atom \<Rightarrow> string \<Rightarrow> bool" where
  "atom_lang (Lit l) w = (w = l)"
| "atom_lang (Alt ls) w = (w \<in> set ls)"
| "atom_lang (Star k) w = list_all (in_cls k) w"
| "atom_lang (Plus k) w = (w \<noteq> [] \<and> list_all (in_cls k) w)"

fun parses :: "item list \<Rightarrow> string \<Rightarrow> string list \<Rightarrow> bool" where
  "parses [] w gs = (w = [] \<and> gs = [])"
| "parses (Plain a # its) w gs = (\<exists>u v. w = u @ v \<and> atom_lang a u \<and> parses its v gs)"
| "parses (Group a # its) w gs =
     (\<exists>u v gs'. w = u @ v \<and> gs = u # gs' \<and> atom_lang a u \<and> parses its v gs')"

text \<open>
  A call site of the matched shape is a word of the script's pattern; \<open>site_at s\<close>: one
  starts at the beginning of \<open>s\<close>; \<open>has_site s\<close>: one occurs somewhere in \<open>s\<close>.
\<close>

definition site :: "string \<Rightarrow> string list \<Rightarrow> bool" where
  "site w gs = parses pattern w gs"

definition site_at :: "string \<Rightarrow> bool" where
  "site_at s = (\<exists>w gs r. s = w @ r \<and> site w gs)"

definition has_site :: "string \<Rightarrow> bool" where
  "has_site s = (\<exists>u v. s = u @ v \<and> site_at v)"


text \<open>
  \<open>none_starts P u v\<close>: at no position inside \<open>u\<close> does the text \<open>u @ v\<close>, read from that
  position on, satisfy \<open>P\<close>.
\<close>

fun none_starts :: "(string \<Rightarrow> bool) \<Rightarrow> string \<Rightarrow> string \<Rightarrow> bool" where
  "none_starts P [] v = True"
| "none_starts P (c # cs) v = (\<not> P (c # cs @ v) \<and> none_starts P cs v)"

text \<open>
  The groups of the matches that the scan of \<^verbatim>\<open>re.sub\<close> replaces, in order (what
  \<^verbatim>\<open>re.findall\<close> returns for a pattern with groups).
\<close>

function captures :: "item list \<Rightarrow> string \<Rightarrow> string list list" where
  "captures p s =
     (case match_items p s of
        None \<Rightarrow> (case s of [] \<Rightarrow> [] | c # cs \<Rightarrow> captures p cs)
      | Some (gs, r) \<Rightarrow>
          if length r < length s then gs # captures p r
          else gs # (case s of [] \<Rightarrow> [] | c # cs \<Rightarrow> captures p cs))"
  by pat_completeness auto
termination
  by (relation "measure (\<lambda>(p, s). length s)") auto

declare captures.simps [simp del]

text \<open>
  The pattern read from left to right without backtracking. After
  \<^verbatim>\<open>logger.warn(\<close> or \<^verbatim>\<open>logger.info(\<close> the message runs to the first comma
  (\<open>after_level\<close>); then come, each after optional white space, \<^verbatim>\<open>error,\<close>,
  \<^verbatim>\<open>{\<close> and \<^verbatim>\<open>component:\<close> (\<open>after_message\<close>); the value runs to the first
  closing brace, which a closing parenthesis follows (\<open>value_ends\<close>). \<open>site_start\<close> is
  shown below to hold of exactly the texts at whose beginning a call site starts.
\<close>

definition skip_lit :: "string \<Rightarrow> string \<Rightarrow> string option" where
  "skip_lit l x =
     (let y = dropWhile is_space x in if starts_with l y then Some (drop (length l) y) else None)"

definition value_ends :: "string \<Rightarrow> bool" where
  "value_ends x =
     (takeWhile (\<lambda>c. c \<noteq> CHR ''}'') x \<noteq> [] \<and> starts_with ''})'' (dropWhile (\<lambda>c. c \<noteq> CHR ''}'') x))"

definition after_message :: "string \<Rightarrow> bool" where
  "after_message x =
     (case skip_lit ''error,'' x of
        None \<Rightarrow> False
      | Some x3 \<Rightarrow>
          (case skip_lit ''{'' x3 of
             None \<Rightarrow> False
           | Some x4 \<Rightarrow>
               (case skip_lit ''component:'' x4 of
                  None \<Rightarrow> False
                | Some x5 \<Rightarrow> value_ends x5)))"

definition after_level :: "string \<Rightarrow> bool" where
  "after_level x =
     (takeWhile (\<lambda>c. c \<noteq> CHR '','') x \<noteq> [] \<and>
      (case dropWhile (\<lambda>c. c \<noteq> CHR '','') x of [] \<Rightarrow> False | c # x2 \<Rightarrow> after_message x2))"

definition site_start :: "string \<Rightarrow> bool" where
  "site_start x =
     ((starts_with ''logger.warn('' x \<or> starts_with ''logger.info('' x) \<and> after_level (drop 12 x))"

section \<open>The program\<close>

text \<open>
  The script opens the file in text mode with the defaults of \<^verbatim>\<open>open\<close>. Reading
  decodes the stored bytes in the platform's encoding and then, in universal-newlines
  mode, turns every \<^verbatim>\<open>\r\n\<close> and every other \<^verbatim>\<open>\r\<close> into \<^verbatim>\<open>\n\<close>;
  writing turns every \<^verbatim>\<open>\n\<close> into the platform's line separator and encodes the
  result.
\<close>

fun universal_newlines :: "string \<Rightarrow> string" where
  "universal_newlines [] = []"
| "universal_newlines [c] = (if c = CHR 0x0D then [CHR 0x0A] else [c])"
| "universal_newlines (c # d # ds) =
     (if c = CHR 0x0D \<and> d = CHR 0x0A then CHR 0x0A # universal_newlines ds
      else if c = CHR 0x0D then CHR 0x0A # universal_newlines (d # ds)
      else c # universal_newlines (d # ds))"

definition write_newlines :: "string \<Rightarrow> string \<Rightarrow> string" where
  "write_newlines sep t = concat (map (\<lambda>c. if c = CHR 0x0A then sep else [c]) t)"

text \<open>
  The world of the script: the directory entries it can reach, standard output, a log of
  its calls of \<^verbatim>\<open>open\<close>, and the platform: its default text encoding (\<open>decode\<close> and
  \<open>encode\<close>, \<open>None\<close> where Python raises a Unicode error) and its line separator
  \<^verbatim>\<open>os.linesep\<close>. A regular file has its stored bytes and whether it may be read and
  written.
\<close>

record text_file =
  bytes_of :: string
  readable :: bool
  writable :: bool

datatype entry = Directory | Regular text_file

datatype event = Opened_for_read string | Opened_for_write string

record world =
  files :: "string \<Rightarrow> entry option"
  stdout :: "string list"
  io_log :: "event list"
  decode :: "string \<Rightarrow> string option"
  encode :: "string \<Rightarrow> string option"
  linesep :: string

text \<open>
  How the process ends: \<^verbatim>\<open>sys.exit(n)\<close> or the end of the script (status 0), or an
  exception that nothing catches (a traceback and a non-zero status).
\<close>

datatype status = Exit nat | Uncaught py_error

definition print_line :: "string \<Rightarrow> world \<Rightarrow> world" where
  "print_line line w = w\<lparr>stdout := stdout w @ [line]\<rparr>"

text \<open>
  \<^verbatim>\<open>with open(file_path, 'r') as f: content = f.read()\<close>: \<^verbatim>\<open>open\<close> fails on a
  missing path, a directory and a file that may not be read; \<^verbatim>\<open>read\<close> fails on bytes
  that do not decode.
\<close>

definition read_file :: "string \<Rightarrow> world \<Rightarrow> (py_error + string) \<times> world" where
  "read_file p w =
     (let w' = w\<lparr>io_log := io_log w @ [Opened_for_read p]\<rparr> in
      case files w p of
        None \<Rightarrow> (Inl FileNotFoundError, w')
      | Some Directory \<Rightarrow> (Inl IsADirectoryError, w')
      | Some (Regular f) \<Rightarrow>
          if \<not> readable f then (Inl PermissionError, w')
          else
            (case decode w (bytes_of f) of
               None \<Rightarrow> (Inl UnicodeDecodeError, w')
             | Some raw \<Rightarrow> (Inr (universal_newlines raw), w')))"

text \<open>
  \<^verbatim>\<open>with open(file_path, 'w') as f: f.write(content_fixed)\<close>: \<^verbatim>\<open>open\<close> creates a
  missing file and empties an existing one before anything is written, so a text that does
  not encode leaves the file empty.
\<close>

definition write_file :: "string \<Rightarrow> string \<Rightarrow> world \<Rightarrow> (py_error + unit) \<times> world" where
  "write_file p t w =
     (let w' = w\<lparr>io_log := io_log w @ [Opened_for_write p]\<rparr> in
      case files w p of
        Some Directory \<Rightarrow> (Inl IsADirectoryError, w')
      | Some (Regular f) \<Rightarrow>
          if \<not> writable f then (Inl PermissionError, w')
          else
            (case encode w (write_newlines (linesep w) t) of
               None \<Rightarrow>
                 (Inl UnicodeEncodeError,
                  w'\<lparr>files := (files w)(p \<mapsto> Regular (f\<lparr>bytes_of := []\<rparr>))\<rparr>)
             | Some b \<Rightarrow> (Inr (), w'\<lparr>files := (files w)(p \<mapsto> Regular (f\<lparr>bytes_of := b\<rparr>))\<rparr>))
      | None \<Rightarrow>
          (case encode w (write_newlines (linesep w) t) of
             None \<Rightarrow>
               (Inl UnicodeEncodeError,
                w'\<lparr>files := (files w)(p \<mapsto>
                  Regular \<lparr>bytes_of = [], readable = True, writable = True\<rparr>)\<rparr>)
           | Some b \<Rightarrow>
               (Inr (),
                w'\<lparr>files := (files w)(p \<mapsto>
                  Regular \<lparr>bytes_of = b, readable = True, writable = True\<rparr>)\<rparr>)))"

definition usage :: string where
  "usage = ''Usage: python3 fix-all-logger-signatures.py <file>''"

definition main :: "string list \<Rightarrow> world \<Rightarrow> status \<times> world" where
  "main argv w =
     (let file_path = (if length argv > 1 then Some (argv ! 1) else None) in
      case file_path of
        None \<Rightarrow> (Exit 1, print_line usage w)
      | Some p \<Rightarrow>
          if p = [] then (Exit 1, print_line usage w)
          else
            (case read_file p w of
               (Inl e, w1) \<Rightarrow> (Uncaught e, w1)
             | (Inr content, w1) \<Rightarrow>
                 (case content_fixed content of
                    Inl e \<Rightarrow> (Uncaught e, w1)
                  | Inr fixed \<Rightarrow>
                      (case write_file p fixed w1 of
                         (Inl e, w2) \<Rightarrow> (Uncaught e, w2)
                       | (Inr u, w2) \<Rightarrow> (Exit 0, print_line (''Fixed: '' @ p) w2)))))"

section \<open>The engine finds what the pattern matches\<close>

lemma first_some_SomeD: "first_some f xs = Some y \<Longrightarrow> \<exists>x\<in>set xs. f x = Some y"
  by (induction xs) (auto split: option.splits)

lemma first_some_None_iff: "first_some f xs = None \<longleftrightarrow> (\<forall>x\<in>set xs. f x = None)"
  by (induction xs) (auto split: option.splits)

lemma greedy_iff: "w \<in> set (greedy k s) \<longleftrightarrow> (\<exists>r. s = w @ r) \<and> list_all (in_cls k) w"
proof (induction s arbitrary: w)
  case Nil
  then show ?case by auto
next
  case (Cons c cs)
  show ?case
  proof (cases w)
    case Nil
    then show ?thesis by auto
  next
    case (Cons d ds)
    then show ?thesis using Cons.IH [of ds] by auto
  qed
qed

lemma starts_with_iff: "starts_with l s \<longleftrightarrow> (\<exists>r. s = l @ r)"
  unfolding starts_with_def
  by (metis append_eq_conv_conj append_take_drop_id)

lemma candidates_iff: "w \<in> set (candidates a s) \<longleftrightarrow> atom_lang a w \<and> (\<exists>r. s = w @ r)"
  by (cases a) (auto simp: starts_with_iff greedy_iff)

lemma match_items_sound:
  "match_items p s = Some (gs, r) \<Longrightarrow> \<exists>w. s = w @ r \<and> parses p w gs"
proof (induction p arbitrary: s gs)
  case Nil
  then show ?case by simp
next
  case (Cons it its)
  show ?case
  proof (cases it)
    case (Plain a)
    with Cons.prems obtain u where u: "u \<in> set (candidates a s)"
      and m: "match_items its (drop (length u) s) = Some (gs, r)"
      by (auto dest: first_some_SomeD)
    from u obtain t where s: "s = u @ t" and a: "atom_lang a u"
      by (auto simp: candidates_iff)
    from Cons.IH [OF m] s obtain v where "t = v @ r" "parses its v gs" by auto
    with s a Plain show ?thesis by auto
  next
    case (Group a)
    with Cons.prems obtain u gs' where u: "u \<in> set (candidates a s)"
      and m: "match_items its (drop (length u) s) = Some (gs', r)" and gs: "gs = u # gs'"
      by (auto dest!: first_some_SomeD)
    from u obtain t where s: "s = u @ t" and a: "atom_lang a u"
      by (auto simp: candidates_iff)
    from Cons.IH [OF m] s obtain v where "t = v @ r" "parses its v gs'" by auto
    with s a Group gs show ?thesis by auto
  qed
qed

lemma match_items_complete:
  "parses p w gs \<Longrightarrow> match_items p (w @ r) \<noteq> None"
proof (induction p arbitrary: w gs)
  case Nil
  then show ?case by simp
next
  case (Cons it its)
  show ?case
  proof (cases it)
    case (Plain a)
    with Cons.prems obtain u v where w: "w = u @ v" and a: "atom_lang a u" and v: "parses its v gs"
      by auto
    from a w have "u \<in> set (candidates a (w @ r))" by (simp add: candidates_iff)
    moreover from Cons.IH [OF v] w have "match_items its (drop (length u) (w @ r)) \<noteq> None" by simp
    ultimately show ?thesis using Plain by (auto simp: first_some_None_iff)
  next
    case (Group a)
    with Cons.prems obtain u v gs' where w: "w = u @ v" and a: "atom_lang a u" and v: "parses its v gs'"
      by auto
    from a w have "u \<in> set (candidates a (w @ r))" by (simp add: candidates_iff)
    moreover from Cons.IH [OF v] w have "match_items its (drop (length u) (w @ r)) \<noteq> None" by simp
    ultimately show ?thesis using Group by (auto simp: first_some_None_iff)
  qed
qed

lemma site_at_iff: "site_at s \<longleftrightarrow> match_items pattern s \<noteq> None"
  unfolding site_at_def site_def
  using match_items_sound match_items_complete by (metis not_Some_eq surj_pair)

lemma content_fixed_eq: "content_fixed s = Inr (sub_loop pattern replacement s)"
  by (simp add: content_fixed_def re_sub_def pattern_def replacement_def)

section \<open>The scan of the script's pattern\<close>

lemma not_site_at_iff: "\<not> site_at s \<longleftrightarrow> match_items pattern s = None"
  using site_at_iff [of s] by blast

lemma parses_lit_nonempty: "parses (Plain (Lit (c # l)) # its) w gs \<Longrightarrow> w \<noteq> []"
  by auto

lemma site_nonempty: "site w gs \<Longrightarrow> w \<noteq> []"
  unfolding site_def pattern_def by (rule parses_lit_nonempty)

lemma not_site_at_Nil: "\<not> site_at []"
  by (auto simp: site_at_def dest: site_nonempty)

lemma match_pattern_shorter:
  "match_items pattern s = Some (gs, r) \<Longrightarrow> length r < length s"
  by (auto dest!: match_items_sound site_nonempty [unfolded site_def])

lemma sub_loop_match:
  "match_items pattern s = Some (gs, r) \<Longrightarrow>
     sub_loop pattern replacement s = expand replacement gs @ sub_loop pattern replacement r"
  by (subst sub_loop.simps) (simp add: match_pattern_shorter)

lemma sub_loop_Nil: "sub_loop pattern replacement [] = []"
proof -
  have "match_items pattern [] = None"
    using not_site_at_Nil by (simp only: not_site_at_iff)
  then show ?thesis by (subst sub_loop.simps) simp
qed

lemma sub_loop_no_match:
  "\<not> site_at (c # cs) \<Longrightarrow>
     sub_loop pattern replacement (c # cs) = c # sub_loop pattern replacement cs"
proof -
  assume "\<not> site_at (c # cs)"
  then have "match_items pattern (c # cs) = None"
    by (simp only: not_site_at_iff)
  then show ?thesis by (subst sub_loop.simps) simp
qed

lemma sub_loop_skip:
  "none_starts site_at u t \<Longrightarrow>
     sub_loop pattern replacement (u @ t) = u @ sub_loop pattern replacement t"
  by (induction u) (simp_all add: sub_loop_no_match)

lemma has_site_Nil: "\<not> has_site []"
  by (simp add: has_site_def not_site_at_Nil)

lemma has_site_Cons: "has_site (c # cs) \<longleftrightarrow> site_at (c # cs) \<or> has_site cs"
  unfolding has_site_def by (auto simp: Cons_eq_append_conv)

lemma has_site_iff: "has_site s \<longleftrightarrow> \<not> none_starts site_at s []"
  by (induction s) (simp_all add: has_site_Nil has_site_Cons)

lemma sub_loop_no_site: "\<not> has_site s \<Longrightarrow> sub_loop pattern replacement s = s"
  using sub_loop_skip [of s "[]"] by (simp add: has_site_iff sub_loop_Nil)

lemma in_cls_Space: "list_all (in_cls Space) a = list_all is_space a"
  by (simp add: list_all_iff)

lemma in_cls_Not: "list_all (in_cls (Not_char x)) a = list_all (\<lambda>c. c \<noteq> x) a"
  by (simp add: list_all_iff)

lemma siteD:
  assumes "site w gs"
  shows "\<exists>g1 g2 g3 a b c d e.
        gs = [g1, g2, g3] \<and>
        w = ''logger.'' @ g1 @ ''('' @ g2 @ '','' @ a @ ''error,'' @ b @ ''{'' @ c @
            ''component:'' @ d @ g3 @ e @ ''})'' \<and>
        (g1 = ''warn'' \<or> g1 = ''info'') \<and>
        g2 \<noteq> [] \<and> list_all (\<lambda>x. x \<noteq> CHR '','') g2 \<and>
        list_all is_space a \<and> list_all is_space b \<and> list_all is_space c \<and>
        list_all is_space d \<and>
        g3 \<noteq> [] \<and> list_all (\<lambda>x. x \<noteq> CHR ''}'') g3 \<and> list_all is_space e"
  using assms unfolding site_def pattern_def
  apply (clarsimp simp del: append_assoc simp add: in_cls_Space in_cls_Not)
  subgoal for g1 g2 a b c d g3 e
    by (rule exI [of _ a], rule exI [of _ b], rule exI [of _ c], rule exI [of _ d],
        rule exI [of _ e]) simp
  done

lemma parses_PlainI:
  "atom_lang a u \<Longrightarrow> parses its v gs \<Longrightarrow> parses (Plain a # its) (u @ v) gs"
  by auto

lemma parses_GroupI:
  "atom_lang a u \<Longrightarrow> parses its v gs \<Longrightarrow> parses (Group a # its) (u @ v) (u # gs)"
  by auto

lemma parses_lastI: "atom_lang a u \<Longrightarrow> parses [Plain a] u []"
  by auto

lemma siteI:
  assumes "g1 = ''warn'' \<or> g1 = ''info''" "g2 \<noteq> []" "list_all (\<lambda>x. x \<noteq> CHR '','') g2"
    "list_all is_space a" "list_all is_space b" "list_all is_space c" "list_all is_space d"
    "g3 \<noteq> []" "list_all (\<lambda>x. x \<noteq> CHR ''}'') g3" "list_all is_space e"
  shows "site (''logger.'' @ g1 @ ''('' @ g2 @ '','' @ a @ ''error,'' @ b @ ''{'' @ c @
            ''component:'' @ d @ g3 @ e @ ''})'') [g1, g2, g3]"
  unfolding site_def pattern_def
  by (intro parses_PlainI parses_GroupI parses_lastI)
    (use assms in \<open>auto simp: in_cls_Space in_cls_Not\<close>)

lemma expand_replacement:
  "expand replacement [g1, g2, g3] =
     ''logger.'' @ g1 @ ''('' @ g2 @ '', { component: '' @ g3 @ '', error })''"
  by (simp add: replacement_def)

lemma captures_match:
  "match_items pattern s = Some (gs, r) \<Longrightarrow> captures pattern s = gs # captures pattern r"
  by (subst captures.simps) (simp add: match_pattern_shorter)

lemma captures_Nil: "captures pattern [] = []"
proof -
  have "match_items pattern [] = None"
    using not_site_at_Nil by (simp only: not_site_at_iff)
  then show ?thesis by (subst captures.simps) simp
qed

lemma captures_no_match:
  "\<not> site_at (c # cs) \<Longrightarrow> captures pattern (c # cs) = captures pattern cs"
proof -
  assume "\<not> site_at (c # cs)"
  then have "match_items pattern (c # cs) = None"
    by (simp only: not_site_at_iff)
  then show ?thesis by (subst captures.simps) simp
qed

lemma first_site:
  "(\<not> has_site s \<and> sub_loop pattern replacement s = s \<and> captures pattern s = []) \<or>
   (\<exists>u w v gs. s = u @ w @ v \<and> site w gs \<and> none_starts site_at u (w @ v) \<and>
      sub_loop pattern replacement s = u @ expand replacement gs @ sub_loop pattern replacement v \<and>
      captures pattern s = gs # captures pattern v)"
proof (induction s)
  case Nil
  then show ?case by (simp add: has_site_Nil sub_loop_Nil captures_Nil)
next
  case (Cons c cs)
  show ?case
  proof (cases "site_at (c # cs)")
    case True
    then obtain gs r where m: "match_items pattern (c # cs) = Some (gs, r)"
      by (auto simp: site_at_iff)
    from match_items_sound [OF m] obtain w where w: "c # cs = w @ r" "site w gs"
      by (auto simp: site_def)
    have "c # cs = [] @ w @ r \<and> site w gs \<and> none_starts site_at [] (w @ r) \<and>
      sub_loop pattern replacement (c # cs) =
        [] @ expand replacement gs @ sub_loop pattern replacement r \<and>
      captures pattern (c # cs) = gs # captures pattern r"
      using w m by (simp add: sub_loop_match captures_match)
    then show ?thesis by blast
  next
    case False
    from Cons.IH show ?thesis
    proof (elim disjE exE conjE)
      assume "\<not> has_site cs" "sub_loop pattern replacement cs = cs" "captures pattern cs = []"
      with False show ?thesis
        by (simp add: has_site_Cons sub_loop_no_match captures_no_match)
    next
      fix u w v gs
      assume *: "cs = u @ w @ v" "site w gs" "none_starts site_at u (w @ v)"
        "sub_loop pattern replacement cs =
           u @ expand replacement gs @ sub_loop pattern replacement v"
        "captures pattern cs = gs # captures pattern v"
      have "c # cs = (c # u) @ w @ v \<and> site w gs \<and> none_starts site_at (c # u) (w @ v) \<and>
        sub_loop pattern replacement (c # cs) =
          (c # u) @ expand replacement gs @ sub_loop pattern replacement v \<and>
        captures pattern (c # cs) = gs # captures pattern v"
        using * False by (simp add: sub_loop_no_match captures_no_match)
      then show ?thesis by blast
    qed
  qed
qed


lemma none_starts_mono:
  "none_starts P u v \<Longrightarrow> (\<And>x. Q x \<Longrightarrow> P x) \<Longrightarrow> none_starts Q u v"
  by (induction u) auto

lemma none_starts_cong:
  "(\<And>x. P x = Q x) \<Longrightarrow> none_starts P u v = none_starts Q u v"
  by (induction u) auto

lemma has_site_code:
  "has_site s \<longleftrightarrow> \<not> none_starts (\<lambda>x. match_items pattern x \<noteq> None) s []"
  unfolding has_site_iff by (simp add: none_starts_cong [OF site_at_iff])


section \<open>Reading the pattern without backtracking\<close>

lemma takeWhile_run: "list_all P p \<Longrightarrow> \<not> P c \<Longrightarrow> takeWhile P (p @ c # q) = p"
  by (simp add: list_all_iff takeWhile_tail)

lemma dropWhile_run: "list_all P p \<Longrightarrow> \<not> P c \<Longrightarrow> dropWhile P (p @ c # q) = c # q"
  by (simp add: list_all_iff dropWhile_append2)

lemma list_all_takeWhile: "list_all P (takeWhile P x)"
  by (induction x) auto

lemma run_id:
  "dropWhile P x = c # q \<Longrightarrow> x = takeWhile P x @ c # q \<and> list_all P (takeWhile P x) \<and> \<not> P c"
proof -
  assume d: "dropWhile P x = c # q"
  have "x = takeWhile P x @ dropWhile P x" by simp
  moreover have "\<not> P (hd (dropWhile P x))"
    using d hd_dropWhile [of P x] by simp
  moreover have "list_all P (takeWhile P x)"
    by (rule list_all_takeWhile)
  ultimately show ?thesis using d by simp
qed

lemma skip_litI:
  "x = a @ l @ y \<Longrightarrow> list_all is_space a \<Longrightarrow> l \<noteq> [] \<Longrightarrow> \<not> is_space (hd l) \<Longrightarrow>
     skip_lit l x = Some y"
  by (cases l) (simp_all add: skip_lit_def dropWhile_run starts_with_def)

lemma skip_litD:
  "skip_lit l x = Some y \<Longrightarrow> \<exists>a. list_all is_space a \<and> x = a @ l @ y"
proof -
  assume "skip_lit l x = Some y"
  then have s: "starts_with l (dropWhile is_space x)" and y: "y = drop (length l) (dropWhile is_space x)"
    by (auto simp: skip_lit_def Let_def split: if_splits)
  from s y have "dropWhile is_space x = l @ y"
    by (auto simp: starts_with_iff)
  then have "x = takeWhile is_space x @ l @ y"
    by (metis takeWhile_dropWhile_id)
  moreover have "list_all is_space (takeWhile is_space x)"
    by (rule list_all_takeWhile)
  ultimately show ?thesis by blast
qed

lemma space_chars:
  "\<not> is_space CHR ''e''" "\<not> is_space CHR ''{''" "\<not> is_space CHR ''c''" "\<not> is_space CHR ''}''"
  "\<not> is_space CHR ''l''" "\<not> is_space CHR '',''" "is_space CHR '' ''"
  by (simp_all add: is_space_def)

lemma space_not_brace: "list_all is_space a \<Longrightarrow> list_all (\<lambda>c. c \<noteq> CHR ''}'') a"
  by (auto simp: list_all_iff space_chars)

lemma value_endsI:
  "x = g @ ''})'' @ r \<Longrightarrow> g \<noteq> [] \<Longrightarrow> list_all (\<lambda>c. c \<noteq> CHR ''}'') g \<Longrightarrow> value_ends x"
  by (simp add: value_ends_def takeWhile_run dropWhile_run starts_with_def)

lemma value_endsD:
  "value_ends x \<Longrightarrow> \<exists>g r. x = g @ ''})'' @ r \<and> g \<noteq> [] \<and> list_all (\<lambda>c. c \<noteq> CHR ''}'') g"
proof -
  assume v: "value_ends x"
  then obtain r where d: "dropWhile (\<lambda>c. c \<noteq> CHR ''}'') x = ''})'' @ r"
    by (auto simp: value_ends_def starts_with_iff)
  then have "x = takeWhile (\<lambda>c. c \<noteq> CHR ''}'') x @ ''})'' @ r"
    by (metis takeWhile_dropWhile_id)
  moreover have "list_all (\<lambda>c. c \<noteq> CHR ''}'') (takeWhile (\<lambda>c. c \<noteq> CHR ''}'') x)"
    by (rule list_all_takeWhile)
  ultimately show ?thesis using v by (auto simp: value_ends_def)
qed

lemma after_messageI:
  assumes "x = a @ ''error,'' @ b @ ''{'' @ c @ ''component:'' @ g @ ''})'' @ r"
    "list_all is_space a" "list_all is_space b" "list_all is_space c"
    "g \<noteq> []" "list_all (\<lambda>c. c \<noteq> CHR ''}'') g"
  shows "after_message x"
proof -
  have 1: "skip_lit ''error,'' x = Some (b @ ''{'' @ c @ ''component:'' @ g @ ''})'' @ r)"
    by (rule skip_litI [where a = a]) (use assms in \<open>simp_all add: space_chars\<close>)
  have 2: "skip_lit ''{'' (b @ ''{'' @ c @ ''component:'' @ g @ ''})'' @ r) =
      Some (c @ ''component:'' @ g @ ''})'' @ r)"
    by (rule skip_litI [where a = b]) (use assms in \<open>simp_all add: space_chars\<close>)
  have 3: "skip_lit ''component:'' (c @ ''component:'' @ g @ ''})'' @ r) = Some (g @ ''})'' @ r)"
    by (rule skip_litI [where a = c]) (use assms in \<open>simp_all add: space_chars\<close>)
  have 4: "value_ends (g @ ''})'' @ r)"
    by (rule value_endsI [where g = g and r = r]) (use assms in simp_all)
  show ?thesis unfolding after_message_def by (simp only: 1 2 3 4 option.case)
qed

lemma after_messageD:
  assumes "after_message x"
  shows "\<exists>a b c g r. x = a @ ''error,'' @ b @ ''{'' @ c @ ''component:'' @ g @ ''})'' @ r \<and>
    list_all is_space a \<and> list_all is_space b \<and> list_all is_space c \<and>
    g \<noteq> [] \<and> list_all (\<lambda>c. c \<noteq> CHR ''}'') g"
proof -
  from assms obtain x3 x4 x5 where s: "skip_lit ''error,'' x = Some x3"
    "skip_lit ''{'' x3 = Some x4" "skip_lit ''component:'' x4 = Some x5" "value_ends x5"
    unfolding after_message_def by (auto split: option.splits)
  from skip_litD [OF s(1)] obtain a where a: "list_all is_space a" "x = a @ ''error,'' @ x3" by blast
  from skip_litD [OF s(2)] obtain b where b: "list_all is_space b" "x3 = b @ ''{'' @ x4" by blast
  from skip_litD [OF s(3)] obtain c where c: "list_all is_space c" "x4 = c @ ''component:'' @ x5" by blast
  from value_endsD [OF s(4)] obtain g r where g: "x5 = g @ ''})'' @ r" "g \<noteq> []"
    "list_all (\<lambda>c. c \<noteq> CHR ''}'') g" by blast
  have "x = a @ ''error,'' @ b @ ''{'' @ c @ ''component:'' @ g @ ''})'' @ r"
    by (simp only: a(2) b(2) c(2) g(1))
  with a(1) b(1) c(1) g(2,3) show ?thesis by blast
qed

lemma after_levelI:
  "x = g @ '','' @ y \<Longrightarrow> g \<noteq> [] \<Longrightarrow> list_all (\<lambda>c. c \<noteq> CHR '','') g \<Longrightarrow> after_message y \<Longrightarrow>
     after_level x"
  by (simp add: after_level_def takeWhile_run dropWhile_run)

lemma after_levelD:
  assumes "after_level x"
  shows "\<exists>g y. x = g @ '','' @ y \<and> g \<noteq> [] \<and> list_all (\<lambda>c. c \<noteq> CHR '','') g \<and> after_message y"
proof -
  from assms obtain c y where d: "dropWhile (\<lambda>c. c \<noteq> CHR '','') x = c # y" and m: "after_message y"
    and n: "takeWhile (\<lambda>c. c \<noteq> CHR '','') x \<noteq> []"
    by (auto simp: after_level_def split: list.splits)
  from run_id [OF d] have "x = takeWhile (\<lambda>c. c \<noteq> CHR '','') x @ '','' @ y"
    "list_all (\<lambda>c. c \<noteq> CHR '','') (takeWhile (\<lambda>c. c \<noteq> CHR '','') x)"
    by auto
  with n m show ?thesis by blast
qed

lemma site_startI:
  "x = ''logger.'' @ g1 @ ''('' @ y \<Longrightarrow> g1 = ''warn'' \<or> g1 = ''info'' \<Longrightarrow> after_level y \<Longrightarrow>
     site_start x"
  by (auto simp: site_start_def starts_with_def)

lemma site_startD:
  assumes "site_start x"
  shows "\<exists>g1 y. x = ''logger.'' @ g1 @ ''('' @ y \<and> (g1 = ''warn'' \<or> g1 = ''info'') \<and> after_level y"
proof -
  from assms have l: "after_level (drop 12 x)"
    and "starts_with ''logger.warn('' x \<or> starts_with ''logger.info('' x"
    by (simp_all add: site_start_def)
  from this(2) show ?thesis
  proof
    assume "starts_with ''logger.warn('' x"
    then obtain r where x: "x = ''logger.warn('' @ r" by (auto simp: starts_with_iff)
    with l have "after_level r" by simp
    with x show ?thesis
      by (intro exI [of _ "''warn''"] exI [of _ r]) simp
  next
    assume "starts_with ''logger.info('' x"
    then obtain r where x: "x = ''logger.info('' @ r" by (auto simp: starts_with_iff)
    with l have "after_level r" by simp
    with x show ?thesis
      by (intro exI [of _ "''info''"] exI [of _ r]) simp
  qed
qed

lemma site_at_imp_start: "site_at x \<Longrightarrow> site_start x"
proof -
  assume "site_at x"
  then obtain w gs r where x: "x = w @ r" and "site w gs"
    by (auto simp: site_at_def)
  from siteD [OF this(2)] obtain g1 g2 g3 a b c d e where
    w: "w = ''logger.'' @ g1 @ ''('' @ g2 @ '','' @ a @ ''error,'' @ b @ ''{'' @ c @
            ''component:'' @ d @ g3 @ e @ ''})''"
    and g1: "g1 = ''warn'' \<or> g1 = ''info''"
    and g2: "g2 \<noteq> []" "list_all (\<lambda>x. x \<noteq> CHR '','') g2"
    and sp: "list_all is_space a" "list_all is_space b" "list_all is_space c"
      "list_all is_space d" "list_all is_space e"
    and g3: "g3 \<noteq> []" "list_all (\<lambda>x. x \<noteq> CHR ''}'') g3"
    by blast
  have m: "after_message (a @ ''error,'' @ b @ ''{'' @ c @ ''component:'' @ (d @ g3 @ e) @ ''})'' @ r)"
    by (rule after_messageI [where a = a and b = b and c = c and g = "d @ g3 @ e" and r = r])
      (use sp g3 in \<open>simp_all add: space_not_brace\<close>)
  have l: "after_level (g2 @ '','' @ a @ ''error,'' @ b @ ''{'' @ c @ ''component:'' @
      (d @ g3 @ e) @ ''})'' @ r)"
    by (rule after_levelI [OF refl g2 m])
  show ?thesis
    by (rule site_startI [OF _ g1 l]) (simp add: x w)
qed

lemma site_start_imp_at: "site_start x \<Longrightarrow> site_at x"
proof -
  assume "site_start x"
  from site_startD [OF this] obtain g1 y where
    x: "x = ''logger.'' @ g1 @ ''('' @ y" and g1: "g1 = ''warn'' \<or> g1 = ''info''" and "after_level y"
    by blast
  from after_levelD [OF this(3)] obtain g2 z where
    y: "y = g2 @ '','' @ z" and g2: "g2 \<noteq> []" "list_all (\<lambda>c. c \<noteq> CHR '','') g2" and "after_message z"
    by blast
  from after_messageD [OF this(4)] obtain a b c g3 r where
    z: "z = a @ ''error,'' @ b @ ''{'' @ c @ ''component:'' @ g3 @ ''})'' @ r"
    and sp: "list_all is_space a" "list_all is_space b" "list_all is_space c"
    and g3: "g3 \<noteq> []" "list_all (\<lambda>c. c \<noteq> CHR ''}'') g3"
    by blast
  have "site (''logger.'' @ g1 @ ''('' @ g2 @ '','' @ a @ ''error,'' @ b @ ''{'' @ c @
            ''component:'' @ [] @ g3 @ [] @ ''})'') [g1, g2, g3]"
    by (rule siteI) (use g1 g2 sp g3 in simp_all)
  moreover have "x = (''logger.'' @ g1 @ ''('' @ g2 @ '','' @ a @ ''error,'' @ b @ ''{'' @ c @
            ''component:'' @ [] @ g3 @ [] @ ''})'') @ r"
    by (simp add: x y z)
  ultimately show ?thesis unfolding site_at_def by blast
qed

lemma site_at_start: "site_at x \<longleftrightarrow> site_start x"
  using site_at_imp_start site_start_imp_at by blast

section \<open>A second pass over the output\<close>

text \<open>
  No call site starts inside a rewritten call site whose component value holds no comma,
  or holds no \<^verbatim>\<open>logger.warn(\<close> and no \<^verbatim>\<open>logger.info(\<close>; and where a call site starts
  before a rewritten call site in the output, one started at the same place in the input.
\<close>

lemma lit_prefix:
  "u @ c # z = l @ y \<Longrightarrow> c \<notin> set l \<Longrightarrow> \<exists>u'. u = l @ u' \<and> y = u' @ c # z"
proof (induction l arbitrary: u)
  case Nil
  then show ?case by simp
next
  case (Cons a l)
  then show ?case by (cases u) auto
qed

lemma skip_lit_transfer:
  assumes "skip_lit l (u @ CHR ''l'' # z) = Some y" "CHR ''l'' \<notin> set l" "l \<noteq> []"
  shows "\<exists>u'. y = u' @ CHR ''l'' # z \<and> (\<forall>z'. skip_lit l (u @ z') = Some (u' @ z'))"
proof (cases "list_all is_space u")
  case True
  then have "dropWhile is_space (u @ CHR ''l'' # z) = CHR ''l'' # z"
    by (simp add: dropWhile_run space_chars)
  with assms(1) have "starts_with l (CHR ''l'' # z)"
    by (simp add: skip_lit_def Let_def split: if_splits)
  with assms(2,3) show ?thesis
    by (cases l) (auto simp: starts_with_def)
next
  case False
  then obtain x where x: "x \<in> set u" "\<not> is_space x"
    by (auto simp: list_all_iff)
  then have d: "dropWhile is_space (u @ z') = dropWhile is_space u @ z'" for z'
    by (rule dropWhile_append1)
  from assms(1) have s: "starts_with l (dropWhile is_space u @ CHR ''l'' # z)"
    and y: "y = drop (length l) (dropWhile is_space u @ CHR ''l'' # z)"
    by (auto simp: skip_lit_def Let_def d split: if_splits)
  from s obtain r where "dropWhile is_space u @ CHR ''l'' # z = l @ r"
    by (auto simp: starts_with_iff)
  from lit_prefix [OF this assms(2)] obtain u' where
    u': "dropWhile is_space u = l @ u'" by blast
  have "y = u' @ CHR ''l'' # z"
    by (simp add: y u')
  moreover have "skip_lit l (u @ z') = Some (u' @ z')" for z'
    by (simp add: skip_lit_def Let_def d u' starts_with_def)
  ultimately show ?thesis by blast
qed

lemma value_ends_transfer:
  assumes "value_ends (u @ p @ CHR '','' # z)" "p \<noteq> []" "list_all (\<lambda>c. c \<noteq> CHR ''}'') m"
  shows "value_ends (u @ p @ CHR '','' # m @ ''})'' @ v)"
proof (cases "list_all (\<lambda>c. c \<noteq> CHR ''}'') (u @ p)")
  case True
  then have "list_all (\<lambda>c. c \<noteq> CHR ''}'') ((u @ p) @ '','' @ m)"
    using assms(3) by simp
  then have "value_ends (((u @ p) @ '','' @ m) @ ''})'' @ v)"
    using assms(2) by (intro value_endsI [OF refl]) simp_all
  then show ?thesis by simp
next
  case False
  then obtain x where x: "x \<in> set (u @ p)" "\<not> x \<noteq> CHR ''}''"
    by (auto simp: list_all_iff)
  have t: "takeWhile (\<lambda>c. c \<noteq> CHR ''}'') ((u @ p) @ z') = takeWhile (\<lambda>c. c \<noteq> CHR ''}'') (u @ p)" for z'
    using x by (rule takeWhile_append1)
  have d: "dropWhile (\<lambda>c. c \<noteq> CHR ''}'') ((u @ p) @ z') =
      dropWhile (\<lambda>c. c \<noteq> CHR ''}'') (u @ p) @ z'" for z'
    using x by (rule dropWhile_append1)
  from assms(1) have "value_ends ((u @ p) @ '','' @ z)" by simp
  then have n: "takeWhile (\<lambda>c. c \<noteq> CHR ''}'') (u @ p) \<noteq> []"
    and s: "starts_with ''})'' (dropWhile (\<lambda>c. c \<noteq> CHR ''}'') (u @ p) @ '','' @ z)"
    unfolding value_ends_def t d by simp_all
  from s have "starts_with ''})'' (dropWhile (\<lambda>c. c \<noteq> CHR ''}'') (u @ p) @ z')" for z'
    by (cases "dropWhile (\<lambda>c. c \<noteq> CHR ''}'') (u @ p)"; cases "tl (dropWhile (\<lambda>c. c \<noteq> CHR ''}'') (u @ p))")
      (auto simp: starts_with_def)
  with n have "value_ends ((u @ p) @ '','' @ m @ ''})'' @ v)"
    unfolding value_ends_def t d by simp
  then show ?thesis by simp
qed

lemma after_message_transfer:
  assumes "after_message (u @ CHR ''l'' # z)"
    and v: "\<And>u'. value_ends (u' @ CHR ''l'' # z) \<Longrightarrow> value_ends (u' @ CHR ''l'' # z')"
  shows "after_message (u @ CHR ''l'' # z')"
proof -
  from assms(1) obtain x3 x4 x5 where s: "skip_lit ''error,'' (u @ CHR ''l'' # z) = Some x3"
    "skip_lit ''{'' x3 = Some x4" "skip_lit ''component:'' x4 = Some x5" "value_ends x5"
    unfolding after_message_def by (auto split: option.splits)
  from skip_lit_transfer [OF s(1)] obtain u3 where
    3: "x3 = u3 @ CHR ''l'' # z" "\<And>y. skip_lit ''error,'' (u @ y) = Some (u3 @ y)"
    by auto
  from skip_lit_transfer [OF s(2) [unfolded 3(1)]] obtain u4 where
    4: "x4 = u4 @ CHR ''l'' # z" "\<And>y. skip_lit ''{'' (u3 @ y) = Some (u4 @ y)"
    by auto
  from skip_lit_transfer [OF s(3) [unfolded 4(1)]] obtain u5 where
    5: "x5 = u5 @ CHR ''l'' # z" "\<And>y. skip_lit ''component:'' (u4 @ y) = Some (u5 @ y)"
    by auto
  from s(4) have "value_ends (u5 @ CHR ''l'' # z')"
    unfolding 5(1) by (rule v)
  then show ?thesis
    unfolding after_message_def by (simp only: 3(2) 4(2) 5(2) option.case)
qed

lemma after_level_transfer:
  assumes "after_level (u @ p @ CHR '','' # z)" "list_all (\<lambda>c. c \<noteq> CHR '','') p"
    and n: "\<not> after_message z"
    and m: "\<And>u'. after_message (u' @ p @ CHR '','' # z) \<Longrightarrow> after_message (u' @ p @ CHR '','' # z')"
  shows "after_level (u @ p @ CHR '','' # z')"
proof (cases "list_all (\<lambda>c. c \<noteq> CHR '','') u")
  case True
  then have "list_all (\<lambda>c. c \<noteq> CHR '','') (u @ p)"
    using assms(2) by simp
  then have "dropWhile (\<lambda>c. c \<noteq> CHR '','') ((u @ p) @ CHR '','' # z) = CHR '','' # z"
    by (rule dropWhile_run) simp
  with assms(1) n show ?thesis
    by (simp add: after_level_def)
next
  case False
  then obtain x where x: "x \<in> set u" "\<not> x \<noteq> CHR '',''"
    by (auto simp: list_all_iff)
  have t: "takeWhile (\<lambda>c. c \<noteq> CHR '','') (u @ y) = takeWhile (\<lambda>c. c \<noteq> CHR '','') u" for y
    using x by (rule takeWhile_append1)
  have d: "dropWhile (\<lambda>c. c \<noteq> CHR '','') (u @ y) = dropWhile (\<lambda>c. c \<noteq> CHR '','') u @ y" for y
    using x by (rule dropWhile_append1)
  from x have "dropWhile (\<lambda>c. c \<noteq> CHR '','') u \<noteq> []"
    by (auto simp: dropWhile_eq_Nil_conv)
  then obtain c u2 where u2: "dropWhile (\<lambda>c. c \<noteq> CHR '','') u = c # u2"
    by (cases "dropWhile (\<lambda>c. c \<noteq> CHR '','') u") auto
  from assms(1) have "takeWhile (\<lambda>c. c \<noteq> CHR '','') u \<noteq> []"
    and "after_message (u2 @ p @ CHR '','' # z)"
    unfolding after_level_def t d u2 by simp_all
  then show ?thesis
    unfolding after_level_def t d u2 by (simp add: m)
qed

lemma level_lit:
  "g1 = ''warn'' \<or> g1 = ''info'' \<Longrightarrow>
     CHR ''l'' \<notin> set (''ogger.'' @ g1 @ ''('') \<and> CHR '','' \<notin> set (''logger.'' @ g1 @ ''('')"
  by auto

lemma site_start_transfer:
  assumes "site_start (u @ CHR ''l'' # x)" "u \<noteq> []"
    and al: "\<And>u'. after_level (u' @ CHR ''l'' # x) \<Longrightarrow> after_level (u' @ CHR ''l'' # x')"
  shows "site_start (u @ CHR ''l'' # x')"
proof -
  from site_startD [OF assms(1)] obtain g1 y where
    e: "u @ CHR ''l'' # x = ''logger.'' @ g1 @ ''('' @ y" and g1: "g1 = ''warn'' \<or> g1 = ''info''"
    and y: "after_level y" by blast
  from assms(2) e obtain u0 where u: "u = CHR ''l'' # u0"
    by (cases u) auto
  with e have "u0 @ CHR ''l'' # x = (''ogger.'' @ g1 @ ''('') @ y" by simp
  from lit_prefix [OF this] level_lit [OF g1] obtain u' where
    u0: "u0 = (''ogger.'' @ g1 @ ''('') @ u'" and y': "y = u' @ CHR ''l'' # x" by blast
  from y have l: "after_level (u' @ CHR ''l'' # x')"
    unfolding y' by (rule al)
  show ?thesis
    by (rule site_startI [OF _ g1 l]) (simp add: u u0)
qed

lemma site_start_hd: "site_start (c # z) \<Longrightarrow> c = CHR ''l''"
  by (auto simp: site_start_def starts_with_def)

lemma none_starts_no_l: "CHR ''l'' \<notin> set p \<Longrightarrow> none_starts site_start p z"
  by (induction p) (auto dest: site_start_hd)

lemma site_start_first_comma:
  assumes "site_start (p @ CHR '','' # z)" "list_all (\<lambda>c. c \<noteq> CHR '','') p"
  shows "after_message z"
proof -
  from site_startD [OF assms(1)] obtain g1 y where
    e: "p @ CHR '','' # z = (''logger.'' @ g1 @ ''('') @ y" and g1: "g1 = ''warn'' \<or> g1 = ''info''"
    and y: "after_level y" by auto
  from lit_prefix [OF e] level_lit [OF g1] obtain p' where
    p: "p = (''logger.'' @ g1 @ ''('') @ p'" and y': "y = p' @ CHR '','' # z" by blast
  from assms(2) p have "list_all (\<lambda>c. c \<noteq> CHR '','') p'" by simp
  then have "dropWhile (\<lambda>c. c \<noteq> CHR '','') (p' @ CHR '','' # z) = CHR '','' # z"
    by (rule dropWhile_run) simp
  with y show ?thesis
    unfolding y' after_level_def by simp
qed

lemma none_starts_comma_free:
  "list_all (\<lambda>c. c \<noteq> CHR '','') p \<Longrightarrow> \<not> after_message z \<Longrightarrow>
     none_starts site_start p (CHR '','' # z)"
proof (induction p)
  case Nil
  then show ?case by simp
next
  case (Cons c p)
  from Cons.prems have "\<not> site_start ((c # p) @ CHR '','' # z)"
    using site_start_first_comma by blast
  with Cons show ?case by simp
qed

lemma none_starts_append:
  "none_starts P (a @ b) v \<longleftrightarrow> none_starts P a (b @ v) \<and> none_starts P b v"
  by (induction a) auto

lemma not_after_message_new:
  "\<not> after_message ('' { component: '' @ z)" "\<not> after_message ('' error })'' @ z)"
  by (simp_all add: after_message_def skip_lit_def Let_def starts_with_def space_chars)

lemma starts_with_before_comma:
  assumes "starts_with l (z @ CHR '','' # y)" "CHR '','' \<notin> set l"
  shows "starts_with l z"
proof -
  from assms(1) obtain r where "z @ CHR '','' # y = l @ r"
    by (auto simp: starts_with_iff)
  from lit_prefix [OF this assms(2)] show ?thesis
    by (auto simp: starts_with_iff)
qed

lemma none_starts_level_free:
  "none_starts (\<lambda>x. starts_with ''logger.warn('' x \<or> starts_with ''logger.info('' x) g [] \<Longrightarrow>
     none_starts site_start g (CHR '','' # z)"
proof (induction g)
  case Nil
  then show ?case by simp
next
  case (Cons c g)
  have "\<not> site_start ((c # g) @ CHR '','' # z)"
  proof
    assume "site_start ((c # g) @ CHR '','' # z)"
    then have "starts_with ''logger.warn('' ((c # g) @ CHR '','' # z) \<or>
        starts_with ''logger.info('' ((c # g) @ CHR '','' # z)"
      by (simp add: site_start_def)
    then have "starts_with ''logger.warn('' (c # g) \<or> starts_with ''logger.info('' (c # g)"
      using starts_with_before_comma [of "''logger.warn(''" "c # g" z]
        starts_with_before_comma [of "''logger.info(''" "c # g" z]
      by auto
    with Cons.prems show False by simp
  qed
  with Cons show ?case by simp
qed

lemma none_starts_two_commas:
  assumes "list_all (\<lambda>c. c \<noteq> CHR '','') p" "\<not> after_message (b @ CHR '','' # c @ t)"
    "none_starts site_start b (CHR '','' # c @ t)" "CHR ''l'' \<notin> set c"
  shows "none_starts site_start (p @ CHR '','' # b @ CHR '','' # c) t"
proof -
  have 1: "none_starts site_start p (CHR '','' # b @ CHR '','' # c @ t)"
    by (rule none_starts_comma_free [OF assms(1,2)])
  have 3: "\<not> site_start (CHR '','' # z)" for z
    by (auto dest: site_start_hd)
  have 4: "none_starts site_start c t"
    by (rule none_starts_no_l [OF assms(4)])
  have "none_starts site_start (p @ [CHR '',''] @ b @ [CHR '',''] @ c) t"
    unfolding none_starts_append using 1 assms(3) 3 4 by simp
  then show ?thesis by simp
qed

lemma none_starts_rewritten:
  assumes "g1 = ''warn'' \<or> g1 = ''info''" "list_all (\<lambda>c. c \<noteq> CHR '','') g2"
    "list_all (\<lambda>c. c \<noteq> CHR '','') g3 \<or>
     none_starts (\<lambda>x. starts_with ''logger.warn('' x \<or> starts_with ''logger.info('' x) g3 []"
  shows "none_starts site_start
    (''logger.'' @ g1 @ ''('' @ g2 @ '', { component: '' @ g3 @ '', error })'') t"
proof -
  have p: "list_all (\<lambda>c. c \<noteq> CHR '','') (''logger.'' @ g1 @ ''('' @ g2)"
    using assms(1,2) by auto
  have n: "\<not> after_message (('' { component: '' @ g3) @ CHR '','' # '' error })'' @ t)"
    using not_after_message_new(1) [of "g3 @ CHR '','' # '' error })'' @ t"] by simp
  have b: "none_starts site_start ('' { component: '' @ g3) (CHR '','' # '' error })'' @ t)"
    using assms(3)
  proof
    assume "list_all (\<lambda>c. c \<noteq> CHR '','') g3"
    then have "list_all (\<lambda>c. c \<noteq> CHR '','') ('' { component: '' @ g3)" by simp
    then show ?thesis
      by (rule none_starts_comma_free) (rule not_after_message_new(2))
  next
    assume "none_starts (\<lambda>x. starts_with ''logger.warn('' x \<or> starts_with ''logger.info('' x) g3 []"
    then have "none_starts site_start g3 (CHR '','' # '' error })'' @ t)"
      by (rule none_starts_level_free)
    moreover have "none_starts site_start '' { component: '' (g3 @ CHR '','' # '' error })'' @ t)"
      by (rule none_starts_no_l) simp
    ultimately show ?thesis
      unfolding none_starts_append by simp
  qed
  have "none_starts site_start
    ((''logger.'' @ g1 @ ''('' @ g2) @ CHR '','' # ('' { component: '' @ g3) @ CHR '','' # '' error })'') t"
    by (rule none_starts_two_commas [OF p n b]) simp
  then show ?thesis by simp
qed

lemma site_start_rewritten_transfer:
  assumes s: "site_start (u @ (''logger.'' @ g1 @ ''('' @ g2 @ '', { component: '' @ g3 @ '', error })'') @ t)"
    and u: "u \<noteq> []"
    and g1: "g1 = ''warn'' \<or> g1 = ''info''" and g2: "list_all (\<lambda>c. c \<noteq> CHR '','') g2"
    and sp: "list_all is_space a" "list_all is_space b" "list_all is_space c"
      "list_all is_space d" "list_all is_space e"
    and g3: "list_all (\<lambda>c. c \<noteq> CHR ''}'') g3"
  shows "site_start (u @ (''logger.'' @ g1 @ ''('' @ g2 @ '','' @ a @ ''error,'' @ b @ ''{'' @ c @
            ''component:'' @ d @ g3 @ e @ ''})'') @ v)"
proof -
  define p0 where "p0 = ''ogger.'' @ g1 @ ''('' @ g2"
  define zr where "zr = '' { component: '' @ g3 @ '', error })'' @ t"
  define m where "m = a @ ''error,'' @ b @ ''{'' @ c @ ''component:'' @ d @ g3 @ e"
  have p0: "list_all (\<lambda>c. c \<noteq> CHR '','') (CHR ''l'' # p0)"
    using g1 g2 by (auto simp: p0_def)
  have m: "list_all (\<lambda>c. c \<noteq> CHR ''}'') m"
    using sp g3 by (simp add: m_def space_not_brace)
  have zr: "\<not> after_message zr"
    unfolding zr_def by (rule not_after_message_new)
  have ve: "value_ends (u' @ CHR ''l'' # p0 @ CHR '','' # m @ ''})'' @ v)"
    if "value_ends (u' @ CHR ''l'' # p0 @ CHR '','' # zr)" for u'
    using value_ends_transfer [of u' "CHR ''l'' # p0" zr m v] that m by simp
  have am: "after_message (u' @ CHR ''l'' # p0 @ CHR '','' # m @ ''})'' @ v)"
    if "after_message (u' @ CHR ''l'' # p0 @ CHR '','' # zr)" for u'
    using that ve by (rule after_message_transfer)
  have al: "after_level (u' @ CHR ''l'' # p0 @ CHR '','' # m @ ''})'' @ v)"
    if "after_level (u' @ CHR ''l'' # p0 @ CHR '','' # zr)" for u'
  proof -
    have "after_level (u' @ (CHR ''l'' # p0) @ CHR '','' # m @ ''})'' @ v)"
    proof (rule after_level_transfer [OF _ p0 zr])
      show "after_level (u' @ (CHR ''l'' # p0) @ CHR '','' # zr)"
        using that by simp
      show "after_message (w @ (CHR ''l'' # p0) @ CHR '','' # m @ ''})'' @ v)"
        if "after_message (w @ (CHR ''l'' # p0) @ CHR '','' # zr)" for w
        using am [of w] that by simp
    qed
    then show ?thesis by simp
  qed
  from s have "site_start (u @ CHR ''l'' # p0 @ CHR '','' # zr)"
    by (simp add: p0_def zr_def)
  from this u al have "site_start (u @ CHR ''l'' # p0 @ CHR '','' # m @ ''})'' @ v)"
    by (rule site_start_transfer)
  then show ?thesis
    by (simp add: p0_def m_def)
qed

lemma none_starts_before_rewritten:
  assumes n: "none_starts site_start u
      ((''logger.'' @ g1 @ ''('' @ g2 @ '','' @ a @ ''error,'' @ b @ ''{'' @ c @
            ''component:'' @ d @ g3 @ e @ ''})'') @ v)"
    and g1: "g1 = ''warn'' \<or> g1 = ''info''" and g2: "list_all (\<lambda>c. c \<noteq> CHR '','') g2"
    and sp: "list_all is_space a" "list_all is_space b" "list_all is_space c"
      "list_all is_space d" "list_all is_space e"
    and g3: "list_all (\<lambda>c. c \<noteq> CHR ''}'') g3"
  shows "none_starts site_start u
      ((''logger.'' @ g1 @ ''('' @ g2 @ '', { component: '' @ g3 @ '', error })'') @ t)"
  using n
proof (induction u)
  case Nil
  then show ?case by simp
next
  case (Cons x u)
  have "\<not> site_start ((x # u) @ (''logger.'' @ g1 @ ''('' @ g2 @ '', { component: '' @ g3 @ '', error })'') @ t)"
  proof
    assume "site_start ((x # u) @ (''logger.'' @ g1 @ ''('' @ g2 @ '', { component: '' @ g3 @ '', error })'') @ t)"
    then have "site_start ((x # u) @ (''logger.'' @ g1 @ ''('' @ g2 @ '','' @ a @ ''error,'' @ b @ ''{'' @ c @
            ''component:'' @ d @ g3 @ e @ ''})'') @ v)"
      by (rule site_start_rewritten_transfer) (use g1 g2 sp g3 in simp_all)
    with Cons.prems show False by simp
  qed
  with Cons show ?case by simp
qed

lemma none_starts_site_at: "none_starts site_at u v = none_starts site_start u v"
  by (rule none_starts_cong) (rule site_at_start)

lemma idempotent_aux:
  "list_all (\<lambda>gs. CHR '','' \<notin> set (gs ! 2) \<or>
       none_starts (\<lambda>x. starts_with ''logger.warn('' x \<or> starts_with ''logger.info('' x) (gs ! 2) [])
     (captures pattern s) \<Longrightarrow>
     sub_loop pattern replacement (sub_loop pattern replacement s) =
       sub_loop pattern replacement s"
proof (induction s rule: length_induct)
  case (1 s)
  from first_site [of s] show ?case
  proof (elim disjE exE conjE)
    assume "sub_loop pattern replacement s = s"
    then show ?thesis by simp
  next
    fix u w v gs
    assume s: "s = u @ w @ v" and w: "site w gs" and n: "none_starts site_at u (w @ v)"
      and r: "sub_loop pattern replacement s =
         u @ expand replacement gs @ sub_loop pattern replacement v"
      and c: "captures pattern s = gs # captures pattern v"
    from siteD [OF w] obtain g1 g2 g3 a b c d e where
      gs: "gs = [g1, g2, g3]"
      and w': "w = ''logger.'' @ g1 @ ''('' @ g2 @ '','' @ a @ ''error,'' @ b @ ''{'' @ c @
            ''component:'' @ d @ g3 @ e @ ''})''"
      and g1: "g1 = ''warn'' \<or> g1 = ''info''"
      and g2: "list_all (\<lambda>x. x \<noteq> CHR '','') g2"
      and sp: "list_all is_space a" "list_all is_space b" "list_all is_space c"
        "list_all is_space d" "list_all is_space e"
      and g3: "list_all (\<lambda>x. x \<noteq> CHR ''}'') g3"
      by blast
    from "1.prems" c gs have g3c: "list_all (\<lambda>c. c \<noteq> CHR '','') g3 \<or>
        none_starts (\<lambda>x. starts_with ''logger.warn('' x \<or> starts_with ''logger.info('' x) g3 []"
      and cv: "list_all (\<lambda>gs. CHR '','' \<notin> set (gs ! 2) \<or>
          none_starts (\<lambda>x. starts_with ''logger.warn('' x \<or> starts_with ''logger.info('' x) (gs ! 2) [])
        (captures pattern v)"
      by (auto simp: list_all_iff)
    define new where "new = ''logger.'' @ g1 @ ''('' @ g2 @ '', { component: '' @ g3 @ '', error })''"
    define t where "t = sub_loop pattern replacement v"
    have "length v < length s"
      using s site_nonempty [OF w] by simp
    with "1.IH" cv have iv: "sub_loop pattern replacement t = t"
      unfolding t_def by blast
    have rs: "sub_loop pattern replacement s = (u @ new) @ t"
      unfolding r gs expand_replacement new_def t_def by simp
    have "none_starts site_start u (new @ t)"
      unfolding new_def
      by (rule none_starts_before_rewritten [OF n [unfolded none_starts_site_at w'] g1 g2 sp g3])
    moreover have "none_starts site_start new t"
      unfolding new_def by (rule none_starts_rewritten [OF g1 g2 g3c])
    ultimately have "none_starts site_at (u @ new) t"
      by (simp add: none_starts_site_at none_starts_append)
    then have "sub_loop pattern replacement ((u @ new) @ t) = (u @ new) @ sub_loop pattern replacement t"
      by (rule sub_loop_skip)
    then show ?thesis
      by (simp only: rs iv)
  qed
qed

section \<open>The claims about single lines\<close>

text \<open>
  C1 (as stated, refuted): the line
  \<^verbatim>\<open>logger.warn('Cache miss', error, { component: 'cache', extra: 1 })\<close>, whose object
  literal has a key besides \<^verbatim>\<open>component\<close>, would be left unchanged. The script
  changes it.
\<close>

theorem C1_extra_key_line_changes:
  "content_fixed ''logger.warn('Cache miss', error, { component: 'cache', extra: 1 })'' \<noteq>
     Inr ''logger.warn('Cache miss', error, { component: 'cache', extra: 1 })''"
  by code_simp

text \<open>
  C1 (amended): the class \<^verbatim>\<open>[^}]+\<close> takes everything up to the closing brace as
  the value, the extra key included, so the line is rewritten: \<^verbatim>\<open>error\<close> leaves the
  argument list and is appended inside the object literal, after the text
  \<^verbatim>\<open>'cache', extra: 1\<close> and white space.
\<close>

theorem C1_extra_key_line_rewritten:
  "\<exists>w. list_all is_space w \<and>
     content_fixed ''logger.warn('Cache miss', error, { component: 'cache', extra: 1 })'' =
       Inr (''logger.warn('Cache miss', { component: 'cache', extra: 1'' @ w @ '', error })'')"
proof -
  have "content_fixed ''logger.warn('Cache miss', error, { component: 'cache', extra: 1 })'' =
      Inr (''logger.warn('Cache miss', { component: 'cache', extra: 1'' @ '' '' @ '', error })'')"
    by code_simp
  moreover have "list_all is_space '' ''" by code_simp
  ultimately show ?thesis by blast
qed

text \<open>
  C2 (the script at the claim's line): for
  \<^verbatim>\<open>logger.info('Saved record:', error, { component: 'storage' })\<close> the group of the
  value takes the blank before the closing brace with it, and the output has that blank
  before the comma: \<^verbatim>\<open>{ component: 'storage' , error }\<close>, not the
  \<^verbatim>\<open>{ component: 'storage', error }\<close> of the claim and of the script's own comment.
\<close>

theorem C2_saved_record_line:
  "content_fixed ''logger.info('Saved record:', error, { component: 'storage' })'' =
     Inr ''logger.info('Saved record:', { component: 'storage' , error })''"
  by code_simp

text \<open>
  C10: the pattern is not anchored at the start of an identifier. In
  \<^verbatim>\<open>mylogger.warn('m', error, { component: 'x' })\<close> the call is rewritten and the
  characters \<^verbatim>\<open>my\<close> before \<^verbatim>\<open>logger.\<close> are kept.
\<close>

theorem C10_longer_receiver_rewritten:
  "content_fixed ''mylogger.warn('m', error, { component: 'x' })'' =
     Inr (''my'' @ ''logger.warn('m', { component: 'x' , error })'')"
  by code_simp

section \<open>The claims about every input\<close>

text \<open>
  C3 (as stated, refuted): a second application would change nothing, for every input.
  When the value after \<^verbatim>\<open>component:\<close> itself holds a call, the first pass rewrites the
  outer call only, and the inner one, then no longer covered by a match, is rewritten by
  the second pass.
\<close>

theorem C3_second_pass_changes_nested_call:
  "content_fixed ''logger.warn(m, error, { component: logger.warn(a, error, { component: y })'' =
     Inr ''logger.warn(m, { component: logger.warn(a, error, { component: y , error })'' \<and>
   content_fixed ''logger.warn(m, { component: logger.warn(a, error, { component: y , error })'' \<noteq>
     Inr ''logger.warn(m, { component: logger.warn(a, error, { component: y , error })''"
proof -
  have "content_fixed ''logger.warn(m, error, { component: logger.warn(a, error, { component: y })'' =
     Inr ''logger.warn(m, { component: logger.warn(a, error, { component: y , error })''"
    by code_simp
  moreover have "content_fixed ''logger.warn(m, { component: logger.warn(a, error, { component: y , error })'' \<noteq>
     Inr ''logger.warn(m, { component: logger.warn(a, error, { component: y , error })''"
    by code_simp
  ultimately show ?thesis by (rule conjI)
qed

text \<open>
  C3 (amended): the transformation is idempotent on every input in which each call site
  that the pass rewrites has a captured component value (the text of group 3) with no
  comma in it, or with no \<^verbatim>\<open>logger.warn(\<close> and no \<^verbatim>\<open>logger.info(\<close> beginning
  inside it: the second application returns the output of the first unchanged.
\<close>

theorem C3_idempotent_without_nested_call:
  "list_all (\<lambda>gs. CHR '','' \<notin> set (gs ! 2) \<or>
       none_starts (\<lambda>x. starts_with ''logger.warn('' x \<or> starts_with ''logger.info('' x) (gs ! 2) [])
     (captures pattern s) \<Longrightarrow>
     \<exists>t. content_fixed s = Inr t \<and> content_fixed t = Inr t"
  by (simp add: content_fixed_eq idempotent_aux)

theorem C3_idempotent_without_nested_call_witness:
  "list_all (\<lambda>gs. CHR '','' \<notin> set (gs ! 2) \<or>
       none_starts (\<lambda>x. starts_with ''logger.warn('' x \<or> starts_with ''logger.info('' x) (gs ! 2) [])
     (captures pattern
        ''logger.warn('msg', error, { component: 'X' }); logger.warn('Cache miss', error, { component: 'cache', extra: 1 })'') \<and>
   content_fixed
     ''logger.warn('msg', error, { component: 'X' }); logger.warn('Cache miss', error, { component: 'cache', extra: 1 })'' =
     Inr ''logger.warn('msg', { component: 'X' , error }); logger.warn('Cache miss', { component: 'cache', extra: 1 , error })'' \<and>
   content_fixed
     ''logger.warn('msg', { component: 'X' , error }); logger.warn('Cache miss', { component: 'cache', extra: 1 , error })'' =
     Inr ''logger.warn('msg', { component: 'X' , error }); logger.warn('Cache miss', { component: 'cache', extra: 1 , error })''"
proof -
  have h: "list_all (\<lambda>gs. CHR '','' \<notin> set (gs ! 2) \<or>
       none_starts (\<lambda>x. starts_with ''logger.warn('' x \<or> starts_with ''logger.info('' x) (gs ! 2) [])
     (captures pattern
        ''logger.warn('msg', error, { component: 'X' }); logger.warn('Cache miss', error, { component: 'cache', extra: 1 })'')"
    by code_simp
  have c: "content_fixed
     ''logger.warn('msg', error, { component: 'X' }); logger.warn('Cache miss', error, { component: 'cache', extra: 1 })'' =
     Inr ''logger.warn('msg', { component: 'X' , error }); logger.warn('Cache miss', { component: 'cache', extra: 1 , error })''"
    by code_simp
  from C3_idempotent_without_nested_call [OF h] obtain t where
    "content_fixed
     ''logger.warn('msg', error, { component: 'X' }); logger.warn('Cache miss', error, { component: 'cache', extra: 1 })'' = Inr t"
    "content_fixed t = Inr t" by blast
  with c h show ?thesis by (simp only: sum.inject)
qed

text \<open>
  C4: an input in which no call site of the matched shape occurs is returned as it is.
\<close>

theorem C4_identity_without_site: "\<not> has_site s \<Longrightarrow> content_fixed s = Inr s"
  by (simp add: content_fixed_eq sub_loop_no_site)

theorem C4_identity_without_site_witness:
  "\<not> has_site ''logger.error('Boom', error, { component: 'api' })'' \<and>
   content_fixed ''logger.error('Boom', error, { component: 'api' })'' =
     Inr ''logger.error('Boom', error, { component: 'api' })''"
proof -
  have h: "\<not> has_site ''logger.error('Boom', error, { component: 'api' })''"
    unfolding has_site_code by code_simp
  from C4_identity_without_site [OF h] h show ?thesis by simp
qed





text \<open>
  C8: the scan rewrites the leftmost call site and goes on behind it. Either no call site
  occurs and the text is returned unchanged, or the input is \<open>u @ w @ v\<close> where no call
  site starts inside \<open>u\<close> and \<open>w\<close> is a call site with groups \<open>g1\<close>, \<open>g2\<close>, \<open>g3\<close>: then
  \<open>u\<close> is copied character by character, \<open>w\<close> is replaced by its rewritten form, and the
  rest \<open>v\<close> is transformed in the same way (so every further call site that does not
  overlap an earlier one is rewritten too, in the one pass).
\<close>

theorem C8_leftmost_sites_rewritten:
  "(\<not> has_site s \<and> content_fixed s = Inr s) \<or>
   (\<exists>u w v g1 g2 g3 t. s = u @ w @ v \<and> site w [g1, g2, g3] \<and>
      none_starts site_at u (w @ v) \<and> content_fixed v = Inr t \<and>
      content_fixed s =
        Inr (u @ ''logger.'' @ g1 @ ''('' @ g2 @ '', { component: '' @ g3 @ '', error })'' @ t))"
proof -
  from first_site [of s] show ?thesis
  proof (elim disjE exE conjE)
    assume "\<not> has_site s" "sub_loop pattern replacement s = s"
    then show ?thesis by (simp add: content_fixed_eq)
  next
    fix u w v gs
    assume *: "s = u @ w @ v" "site w gs" "none_starts site_at u (w @ v)"
      "sub_loop pattern replacement s =
         u @ expand replacement gs @ sub_loop pattern replacement v"
    from siteD [OF *(2)] obtain g1 g2 g3 where gs: "gs = [g1, g2, g3]" by blast
    have "s = u @ w @ v \<and> site w [g1, g2, g3] \<and> none_starts site_at u (w @ v) \<and>
      content_fixed v = Inr (sub_loop pattern replacement v) \<and>
      content_fixed s =
        Inr (u @ ''logger.'' @ g1 @ ''('' @ g2 @ '', { component: '' @ g3 @ '', error })'' @
          sub_loop pattern replacement v)"
      using * gs by (simp add: content_fixed_eq expand_replacement)
    then show ?thesis by blast
  qed
qed

theorem C8_leftmost_sites_rewritten_witness:
  "has_site ''a(); logger.warn('m', error, { component: 'x' }); logger.info('n', error, { component: 'y' });'' \<and>
   (\<exists>u w v g1 g2 g3 t.
      ''a(); logger.warn('m', error, { component: 'x' }); logger.info('n', error, { component: 'y' });'' = u @ w @ v \<and>
      site w [g1, g2, g3] \<and> none_starts site_at u (w @ v) \<and> content_fixed v = Inr t \<and>
      content_fixed ''a(); logger.warn('m', error, { component: 'x' }); logger.info('n', error, { component: 'y' });'' =
        Inr (u @ ''logger.'' @ g1 @ ''('' @ g2 @ '', { component: '' @ g3 @ '', error })'' @ t))"
proof -
  have h: "has_site ''a(); logger.warn('m', error, { component: 'x' }); logger.info('n', error, { component: 'y' });''"
    unfolding has_site_code by code_simp
  from C8_leftmost_sites_rewritten
    [of "''a(); logger.warn('m', error, { component: 'x' }); logger.info('n', error, { component: 'y' });''"] h
  show ?thesis by blast
qed

section \<open>The claims about a run on a file\<close>






section \<open>The claims about the command line\<close>

text \<open>
  C6: with no file path on the command line the script prints the usage message to
  standard output and exits with status 1; it opens no file and leaves every file as it
  is.
\<close>

theorem C6_no_argument_usage:
  "length argv \<le> 1 \<Longrightarrow>
     main argv w = (Exit 1, w\<lparr>stdout := stdout w @ [usage]\<rparr>)"
  by (simp add: main_def print_line_def)

theorem C6_no_argument_usage_witness:
  "length [''fix-all-logger-signatures.py''] \<le> 1 \<and>
   main [''fix-all-logger-signatures.py'']
     \<lparr>files = Map.empty, stdout = [], io_log = [], decode = Some, encode = Some,
      linesep = [CHR 0x0A]\<rparr> =
     (Exit 1, \<lparr>files = Map.empty, stdout = [usage], io_log = [], decode = Some, encode = Some,
      linesep = [CHR 0x0A]\<rparr>)"
  using C6_no_argument_usage [of "[''fix-all-logger-signatures.py'']"
      "\<lparr>files = Map.empty, stdout = [], io_log = [], decode = Some, encode = Some,
        linesep = [CHR 0x0A]\<rparr>"]
  by simp

text \<open>
  C9: an empty string as the first argument is treated as a missing argument: the usage
  message, status 1, no file opened.
\<close>

theorem C9_empty_argument_usage:
  "main (prog # [] # others) w = (Exit 1, w\<lparr>stdout := stdout w @ [usage]\<rparr>)"
  by (simp add: main_def print_line_def)

end
